theory Spec2Isabelle
  imports Main "HOL-Library.Word"
begin

unbundle bit_operations_syntax

section \<open>The dynamic memory manager of dyn\_mem.c\<close>

text \<open>
  The embedding is for a 32-bit target: \<open>size_t\<close> and every pointer are 32 bits wide, so
  \<open>sizeof(mem_block_t)\<close> is 8 and the aligned header size is 8 as well. Addresses and
  sizes are \<open>32 word\<close>: sums and differences wrap around as the machine's do, and pointer
  comparisons are unsigned. \<open>NULL\<close> is address 0.

  Memory is kept in two stores. \<open>heap\<close> maps an address to the block header
  (\<open>mem_block_t\<close>) that lives there: the allocator reads and writes headers only through
  \<open>mem_block_t *\<close>, a whole field at a time. \<open>bytes\<close> holds the payload bytes that
  \<open>memset\<close> and \<open>memcpy\<close> touch. The static \<open>start_block\<close> has an address like any
  other header (the code compares it with block addresses), so it lives in \<open>heap\<close> at the
  address \<open>start_block\<close> of the state.
\<close>

type_synonym addr = "32 word"

record mem_block =
  next_blk :: addr
  size_blk :: "32 word"

text \<open>
  Modelled from the spec: the region descriptor \<open>mem_region_t\<close> is declared in
  dyn\_mem.h, which is not part of the sources; the code reads its fields
  \<open>start_addr\<close> and \<open>size\<close>.
\<close>

record mem_region =
  start_addr :: addr
  size_reg :: "32 word"

record mem_state =
  start_block :: addr
  heap :: "addr \<Rightarrow> mem_block"
  bytes :: "addr \<Rightarrow> 8 word"
  end_block :: addr
  mem_alloc_bit :: "32 word"
  mem_available_bytes :: "32 word"
  mem_regions_count :: "32 word"

definition MEM_ALIGN_NUM :: "32 word" where
  "MEM_ALIGN_NUM = 4"

definition MEM_ALIGN_BITS :: "32 word" where
  "MEM_ALIGN_BITS = MEM_ALIGN_NUM - 1"

definition MEM_ALIGN :: "32 word \<Rightarrow> 32 word" where
  "MEM_ALIGN x = (x + MEM_ALIGN_BITS) AND NOT MEM_ALIGN_BITS"

definition MEM_BLOCK_META_SIZE :: "32 word" where
  "MEM_BLOCK_META_SIZE = MEM_ALIGN 8"

text \<open>Field writes \<open>p->next = v\<close> and \<open>p->size = v\<close>.\<close>

definition set_next :: "(addr \<Rightarrow> mem_block) \<Rightarrow> addr \<Rightarrow> addr \<Rightarrow> (addr \<Rightarrow> mem_block)" where
  "set_next h p v = h(p := (h p)\<lparr>next_blk := v\<rparr>)"

definition set_size :: "(addr \<Rightarrow> mem_block) \<Rightarrow> addr \<Rightarrow> 32 word \<Rightarrow> (addr \<Rightarrow> mem_block)" where
  "set_size h p v = h(p := (h p)\<lparr>size_blk := v\<rparr>)"



subsection \<open>insert\_free\_block\<close>

text \<open>
  The search loop of \<open>insert_free_block\<close>:
  \<open>for (curr = &start_block; curr != NULL && curr->next < nb; curr = curr->next) {}\<close>.
  It follows the links of the heap, so it need not end: the result \<open>None\<close> is a walk
  that never leaves the loop.
\<close>

partial_function (option) find_prev :: "(addr \<Rightarrow> mem_block) \<Rightarrow> addr \<Rightarrow> addr \<Rightarrow> addr option" where
  "find_prev h cur nb =
     (if cur \<noteq> 0 \<and> next_blk (h cur) < nb then find_prev h (next_blk (h cur)) nb
      else Some cur)"

declare find_prev.simps [code]

text \<open>
  The body after the loop, statement by statement. When the loop left \<open>curr\<close> at
  \<open>NULL\<close>, or the absorbed right neighbour \<open>curr->next\<close> is \<open>NULL\<close>, the code reads a
  header through a null pointer: the call does not return (\<open>None\<close>).
\<close>

definition insert_free_block :: "mem_state \<Rightarrow> addr \<Rightarrow> mem_state option" where
  "insert_free_block s nb0 =
     (case find_prev (heap s) (start_block s) nb0 of
        None \<Rightarrow> None
      | Some cur \<Rightarrow>
          if cur = 0 then None
          else
            let h = heap s;
                merged = (cur + size_blk (h cur) = nb0);
                h1 = (if merged then set_size h cur (size_blk (h cur) + size_blk (h nb0)) else h);
                nb = (if merged then cur else nb0)
            in
              if nb + size_blk (h1 nb) = next_blk (h1 cur) then
                if next_blk (h1 cur) = end_block s then
                  let h2 = set_next h1 nb (end_block s);
                      h3 = (if cur \<noteq> nb then set_next h2 cur nb else h2)
                  in Some (s\<lparr>heap := h3\<rparr>)
                else if next_blk (h1 cur) = 0 then None
                else
                  let h2 = set_size h1 nb (size_blk (h1 nb) + size_blk (h1 (next_blk (h1 cur))));
                      h3 = set_next h2 nb (next_blk (h2 (next_blk (h2 cur))));
                      h4 = (if cur \<noteq> nb then set_next h3 cur nb else h3)
                  in Some (s\<lparr>heap := h4\<rparr>)
              else
                let h2 = set_next h1 nb (next_blk (h1 cur));
                    h3 = (if cur \<noteq> nb then set_next h2 cur nb else h2)
                in Some (s\<lparr>heap := h3\<rparr>))"

subsection \<open>mem\_init\<close>

text \<open>
  The first loop of \<open>mem_init\<close>: \<open>regions_ordered a sz rs\<close> is false when the loop
  returns 0, with \<open>a\<close> and \<open>sz\<close> the \<open>mem_start_addr\<close> and \<open>mem_size\<close> saved from the
  region before (both 0 at the start).
\<close>

fun regions_ordered :: "addr \<Rightarrow> 32 word \<Rightarrow> mem_region list \<Rightarrow> bool" where
  "regions_ordered a sz [] = True"
| "regions_ordered a sz (r # rs) =
     (if a + sz > start_addr r then False
      else regions_ordered (start_addr r) (size_reg r) rs)"

text \<open>
  The size and alignment checks of one iteration of the second loop: \<open>None\<close> when the
  iteration ends at one of the two \<open>continue\<close>s, otherwise the aligned start address and the
  truncated size.
\<close>

definition region_fit :: "mem_region \<Rightarrow> (addr \<times> 32 word) option" where
  "region_fit r =
     (let mem_size = size_reg r in
      if mem_size < MEM_BLOCK_META_SIZE + MEM_ALIGN_NUM then None
      else
        let a0 = start_addr r;
            a = (if a0 AND MEM_ALIGN_BITS \<noteq> 0
                 then a0 + (MEM_ALIGN_NUM - (a0 AND MEM_ALIGN_BITS)) else a0);
            sz1 = (if a0 AND MEM_ALIGN_BITS \<noteq> 0 then mem_size - (a - a0) else mem_size);
            sz2 = (if sz1 AND MEM_ALIGN_BITS \<noteq> 0 then sz1 AND NOT MEM_ALIGN_BITS else sz1)
        in if sz2 < MEM_BLOCK_META_SIZE + MEM_ALIGN_NUM then None else Some (a, sz2))"

text \<open>The rest of the iteration, for a region that passed the checks.\<close>

definition add_region :: "mem_state \<Rightarrow> addr \<Rightarrow> 32 word \<Rightarrow> mem_state" where
  "add_region s mem_start_addr mem_size =
     (let h0 = heap s;
          h1 = (if end_block s = 0
                then set_size (set_next h0 (start_block s) mem_start_addr) (start_block s) 0
                else h0);
          prev_end_block = end_block s;
          eb = mem_start_addr + mem_size - MEM_BLOCK_META_SIZE;
          h2 = set_size (set_next h1 eb 0) eb 0;
          first_block = mem_start_addr;
          h3 = set_size (set_next h2 first_block eb) first_block (mem_size - MEM_BLOCK_META_SIZE);
          h4 = (if prev_end_block \<noteq> 0 then set_next h3 prev_end_block first_block else h3)
      in s\<lparr>heap := h4,
            end_block := eb,
            mem_available_bytes := mem_available_bytes s + size_blk (h4 first_block),
            mem_regions_count := mem_regions_count s + 1\<rparr>)"

fun init_regions :: "mem_state \<Rightarrow> mem_region list \<Rightarrow> mem_state" where
  "init_regions s [] = s"
| "init_regions s (r # rs) =
     (case region_fit r of
        None \<Rightarrow> init_regions s rs
      | Some (a, sz) \<Rightarrow> init_regions (add_region s a sz) rs)"

definition mem_init :: "mem_state \<Rightarrow> mem_region list \<Rightarrow> 32 word \<times> mem_state" where
  "mem_init s regions =
     (if end_block s \<noteq> 0 then (0, s)
      else if \<not> regions_ordered 0 0 regions then (0, s)
      else
        let s1 = init_regions s regions;
            s2 = s1\<lparr>mem_alloc_bit := push_bit 31 1\<rparr>
        in (mem_regions_count s2, s2))"

definition mem_assignmem :: "mem_state \<Rightarrow> mem_region list \<Rightarrow> 32 word \<times> mem_state" where
  "mem_assignmem s regions = mem_init s regions"

subsection \<open>mem\_malloc\<close>

text \<open>
  The first-fit loop \<open>while (curr->size < size) { ... }\<close>. The result is \<open>Some None\<close>
  when the loop returns \<open>NULL\<close> from the function, \<open>Some (Some (prev, cur))\<close> when it ends
  with a block that is large enough, and \<open>None\<close> when it never ends or reads the header
  of a null \<open>curr\<close>.
\<close>

partial_function (option) first_fit ::
  "(addr \<Rightarrow> mem_block) \<Rightarrow> addr \<Rightarrow> addr \<Rightarrow> addr \<Rightarrow> 32 word \<Rightarrow> (addr \<times> addr) option option" where
  "first_fit h eb prev cur need =
     (if cur = 0 then None
      else if size_blk (h cur) < need then
        (if next_blk (h cur) = 0 \<or> cur = eb then Some None
         else first_fit h eb cur (next_blk (h cur)) need)
      else Some (Some (prev, cur)))"

declare first_fit.simps [code]

text \<open>What \<open>mem_malloc\<close> does once the loop has found \<open>prev\<close> and \<open>curr\<close>.\<close>

definition take_block :: "mem_state \<Rightarrow> addr \<Rightarrow> addr \<Rightarrow> 32 word \<Rightarrow> (addr \<times> mem_state) option" where
  "take_block s prev cur need =
     (let retval = next_blk (heap s prev) + MEM_BLOCK_META_SIZE;
          h1 = set_next (heap s) prev (next_blk (heap s cur));
          split = (if size_blk (h1 cur) - need > 2 * MEM_BLOCK_META_SIZE then
                     let nxt = cur + need;
                         h2 = set_size h1 nxt (size_blk (h1 cur) - need);
                         h3 = set_size h2 cur need
                     in insert_free_block (s\<lparr>heap := h3\<rparr>) nxt
                   else Some (s\<lparr>heap := h1\<rparr>))
      in case split of
           None \<Rightarrow> None
         | Some s2 \<Rightarrow>
             let h4 = set_size (heap s2) cur (size_blk (heap s2 cur) OR mem_alloc_bit s2);
                 h5 = set_next h4 cur 0
             in Some (retval, s2\<lparr>heap := h5,
                                 mem_available_bytes := mem_available_bytes s2 - need\<rparr>))"

text \<open>The result is the returned pointer (0 for \<open>NULL\<close>) and the state after the call.\<close>

definition mem_malloc :: "mem_state \<Rightarrow> 32 word \<Rightarrow> (addr \<times> mem_state) option" where
  "mem_malloc s sz =
     (if end_block s = 0 \<or> sz = 0 \<or> sz AND mem_alloc_bit s \<noteq> 0 then Some (0, s)
      else
        let need = MEM_ALIGN sz + MEM_BLOCK_META_SIZE in
        if need AND mem_alloc_bit s \<noteq> 0 then Some (0, s)
        else
          case first_fit (heap s) (end_block s) (start_block s)
                 (next_blk (heap s (start_block s))) need of
            None \<Rightarrow> None
          | Some None \<Rightarrow> Some (0, s)
          | Some (Some (prev, cur)) \<Rightarrow> take_block s prev cur need)"

subsection \<open>mem\_free, mem\_calloc, mem\_realloc\<close>

definition mem_free :: "mem_state \<Rightarrow> addr \<Rightarrow> mem_state option" where
  "mem_free s ptr =
     (if ptr = 0 then Some s
      else
        let block = ptr - MEM_BLOCK_META_SIZE in
        if size_blk (heap s block) AND mem_alloc_bit s \<noteq> 0 \<and> next_blk (heap s block) = 0 then
          let h1 = set_size (heap s) block (size_blk (heap s block) AND NOT (mem_alloc_bit s));
              s1 = s\<lparr>heap := h1,
                     mem_available_bytes := mem_available_bytes s + size_blk (h1 block)\<rparr>
          in insert_free_block s1 block
        else Some s)"



section \<open>Notions of the specification\<close>

subsection \<open>The free list and what it holds\<close>

text \<open>
  The traversal of the free list from a block \<open>p\<close>: the addresses visited, following
  \<open>next\<close> until it is \<open>NULL\<close>. It is \<open>None\<close> when the links never reach \<open>NULL\<close>.
  \<open>free_blocks\<close> is the traversal from \<open>start_block.next\<close>.
\<close>

partial_function (option) free_list :: "(addr \<Rightarrow> mem_block) \<Rightarrow> addr \<Rightarrow> addr list option" where
  "free_list h p =
     (if p = 0 then Some []
      else Option.bind (free_list h (next_blk (h p))) (\<lambda>ps. Some (p # ps)))"

declare free_list.simps [code]

definition free_blocks :: "mem_state \<Rightarrow> addr list option" where
  "free_blocks s = free_list (heap s) (next_blk (heap s (start_block s)))"


definition size_sum :: "(addr \<Rightarrow> mem_block) \<Rightarrow> addr list \<Rightarrow> 32 word" where
  "size_sum h ps = sum_list (map (\<lambda>b. size_blk (h b)) ps)"

subsection \<open>Regions as the specification describes them\<close>

text \<open>
  The specification's words for the per-region processing: align the start address upward
  to \<open>A\<close>, reduce the size by the waste, truncate the size downward to a multiple of
  \<open>A\<close>; the region is skipped when the size is below \<open>H + A\<close> before or after that.
\<close>

definition align_up :: "32 word \<Rightarrow> 32 word" where
  "align_up x =
     (if x mod MEM_ALIGN_NUM = 0 then x else x + (MEM_ALIGN_NUM - x mod MEM_ALIGN_NUM))"

definition align_down :: "32 word \<Rightarrow> 32 word" where
  "align_down x = x - x mod MEM_ALIGN_NUM"

definition region_accepted :: "mem_region \<Rightarrow> bool" where
  "region_accepted r \<longleftrightarrow>
     \<not> size_reg r < MEM_BLOCK_META_SIZE + MEM_ALIGN_NUM \<and>
     \<not> align_down (size_reg r - (align_up (start_addr r) - start_addr r))
         < MEM_BLOCK_META_SIZE + MEM_ALIGN_NUM"

text \<open>
  The specification's ordering of the array: no \<open>regions[i].start_addr\<close> with \<open>i > 0\<close> is
  below \<open>regions[i-1].start_addr + regions[i-1].size\<close>, the sum taken as the code takes it,
  in pointer arithmetic.
\<close>

fun regions_monotonic :: "mem_region list \<Rightarrow> bool" where
  "regions_monotonic (r1 # r2 # rs) =
     (\<not> start_addr r2 < start_addr r1 + size_reg r1 \<and> regions_monotonic (r2 # rs))"
| "regions_monotonic rs = True"

subsection \<open>States to run the code on\<close>

text \<open>
  The state at program start: the statics are zero, the rest of the memory is whatever it
  is. \<open>demo_init\<close> is the specification's scenario, one region of 1024 bytes, here at
  address \<open>0x1000\<close>, with \<open>start_block\<close> at \<open>0x100\<close>.
\<close>

definition boot_state :: "addr \<Rightarrow> (addr \<Rightarrow> mem_block) \<Rightarrow> (addr \<Rightarrow> 8 word) \<Rightarrow> mem_state" where
  "boot_state sb h b =
     \<lparr>start_block = sb, heap = h(sb := \<lparr>next_blk = 0, size_blk = 0\<rparr>), bytes = b,
      end_block = 0, mem_alloc_bit = 0, mem_available_bytes = 0, mem_regions_count = 0\<rparr>"

definition demo_boot :: mem_state where
  "demo_boot = boot_state 0x100 (\<lambda>_. \<lparr>next_blk = 0, size_blk = 0\<rparr>) (\<lambda>_. 0)"

definition demo_init :: mem_state where
  "demo_init = snd (mem_init demo_boot [\<lparr>start_addr = 0x1000, size_reg = 1024\<rparr>])"

text \<open>The state after \<open>mem_malloc(100)\<close> on \<open>demo_init\<close>; the call returns \<open>0x1008\<close>.\<close>

definition demo_alloc :: mem_state where
  "demo_alloc = (case mem_malloc demo_init 100 of Some (p, s) \<Rightarrow> s | None \<Rightarrow> demo_init)"

subsection \<open>The free list as a list of addresses\<close>

text \<open>
  \<open>path h p xs q\<close>: following \<open>next\<close> from \<open>p\<close> visits exactly the headers \<open>xs\<close>,
  none of them at \<open>NULL\<close>, and arrives at \<open>q\<close>.
\<close>

fun path :: "(addr \<Rightarrow> mem_block) \<Rightarrow> addr \<Rightarrow> addr list \<Rightarrow> addr \<Rightarrow> bool" where
  "path h p [] q = (p = q)"
| "path h p (x # xs) q = (p = x \<and> x \<noteq> 0 \<and> path h (next_blk (h x)) xs q)"

text \<open>
  The free-list invariant of the specification: the traversal from \<open>start_block.next\<close>
  visits the blocks \<open>ps\<close> in strictly increasing address order and ends, with a null
  \<open>next\<close>, at the tail sentinel \<open>end_block\<close>. The static \<open>start_block\<close> is no
  block of the list.
\<close>

definition sorted_free_list :: "mem_state \<Rightarrow> addr list \<Rightarrow> bool" where
  "sorted_free_list s ps \<longleftrightarrow>
     start_block s \<noteq> 0 \<and> start_block s \<notin> set ps \<and>
     free_blocks s = Some ps \<and> sorted_wrt (<) ps \<and> ps \<noteq> [] \<and> last ps = end_block s"

text \<open>
  What \<open>insert_free_block\<close> makes of the heap and of the list when its loop stops at
  \<open>c\<close>, written once for the proofs: \<open>ins_heap\<close> is the heap after the call,
  \<open>ins_list\<close> the list from \<open>start_block\<close> on (\<open>xs\<close> are the headers before \<open>c\<close>,
  \<open>suc\<close> those after it), \<open>ins_blocks\<close> the same list without \<open>start_block\<close>.
\<close>

definition ins_heap :: "(addr \<Rightarrow> mem_block) \<Rightarrow> addr \<Rightarrow> addr \<Rightarrow> addr \<Rightarrow> (addr \<Rightarrow> mem_block)" where
  "ins_heap h c nb eb =
     (let n = next_blk (h c) in
      if c + size_blk (h c) = nb then
        (if c + (size_blk (h c) + size_blk (h nb)) = n \<and> n \<noteq> eb
         then h(c := \<lparr>next_blk = next_blk (h n),
                      size_blk = size_blk (h c) + size_blk (h nb) + size_blk (h n)\<rparr>)
         else h(c := (h c)\<lparr>size_blk := size_blk (h c) + size_blk (h nb)\<rparr>))
      else
        (if nb + size_blk (h nb) = n \<and> n \<noteq> eb
         then (h(nb := \<lparr>next_blk = next_blk (h n), size_blk = size_blk (h nb) + size_blk (h n)\<rparr>))
                (c := (h c)\<lparr>next_blk := nb\<rparr>)
         else (h(nb := (h nb)\<lparr>next_blk := n\<rparr>))(c := (h c)\<lparr>next_blk := nb\<rparr>)))"

definition ins_list ::
  "(addr \<Rightarrow> mem_block) \<Rightarrow> addr \<Rightarrow> addr \<Rightarrow> addr \<Rightarrow> addr list \<Rightarrow> addr list \<Rightarrow> addr list" where
  "ins_list h c nb eb xs suc =
     (let n = next_blk (h c) in
      if c + size_blk (h c) = nb then
        (if c + (size_blk (h c) + size_blk (h nb)) = n \<and> n \<noteq> eb
         then xs @ c # tl suc else xs @ c # suc)
      else
        (if nb + size_blk (h nb) = n \<and> n \<noteq> eb
         then xs @ c # nb # tl suc else xs @ c # nb # suc))"

definition ins_blocks ::
  "(addr \<Rightarrow> mem_block) \<Rightarrow> addr \<Rightarrow> addr \<Rightarrow> addr \<Rightarrow> addr list \<Rightarrow> addr list \<Rightarrow> addr list" where
  "ins_blocks h c nb eb pre suc =
     (let n = next_blk (h c) in
      if c + size_blk (h c) = nb then
        (if c + (size_blk (h c) + size_blk (h nb)) = n \<and> n \<noteq> eb
         then pre @ tl suc else pre @ suc)
      else
        (if nb + size_blk (h nb) = n \<and> n \<noteq> eb
         then pre @ nb # tl suc else pre @ nb # suc))"

text \<open>
  \<open>demo_alloc\<close> with the allocated bit of its block at \<open>0x1000\<close> cleared: a free
  block of 108 bytes that is not on the list yet.
\<close>

definition demo_freed :: mem_state where
  "demo_freed = demo_alloc\<lparr>heap := set_size (heap demo_alloc) 0x1000 108\<rparr>"

subsection \<open>Block sizes and extents\<close>

text \<open>
  The size of a block without its allocated bit, and the address one past the block, the
  latter in the naturals so that a block reaching the top of the address space does not
  wrap.
\<close>

definition bsize :: "(addr \<Rightarrow> mem_block) \<Rightarrow> addr \<Rightarrow> 32 word" where
  "bsize h x = size_blk (h x) AND NOT (push_bit 31 1)"

definition blk_end :: "(addr \<Rightarrow> mem_block) \<Rightarrow> addr \<Rightarrow> nat" where
  "blk_end h x = unat x + unat (bsize h x)"




subsection \<open>The layout of the heap between two calls\<close>

text \<open>
  \<open>layout_inv s ps bs S\<close>: the free list is \<open>ps\<close>, sorted and ending at \<open>end_block\<close>;
  \<open>bs\<close> are the headers of the blocks handed out, \<open>S\<close> the end sentinels of the
  regions (size zero, the last one is \<open>end_block\<close>). The allocated bit is the top bit of
  \<open>size_t\<close>, free blocks have it clear, and no two blocks among the free ones, the
  allocated ones, the sentinels and \<open>start_block\<close> overlap. Every block lies less than
  \<open>2 ^ 31\<close> bytes below a sentinel above it. \<open>alloc_inv\<close> is what \<open>mem_free\<close>
  validates: a block handed out has a null \<open>next\<close> and the allocated bit set.
\<close>

definition blocks_dom :: "mem_state \<Rightarrow> addr list \<Rightarrow> addr set \<Rightarrow> addr set \<Rightarrow> addr set" where
  "blocks_dom s ps bs S = set ps \<union> bs \<union> S \<union> {start_block s}"

definition layout_inv :: "mem_state \<Rightarrow> addr list \<Rightarrow> addr set \<Rightarrow> addr set \<Rightarrow> bool" where
  "layout_inv s ps bs S \<longleftrightarrow>
     sorted_free_list s ps \<and>
     mem_alloc_bit s = push_bit 31 1 \<and>
     end_block s \<in> S \<and> (\<forall>e\<in>S. e \<le> end_block s \<and> size_blk (heap s e) = 0) \<and>
     size_blk (heap s (start_block s)) = 0 \<and>
     0 \<notin> bs \<and> start_block s \<notin> bs \<union> S \<and> bs \<inter> (set ps \<union> S) = {} \<and>
     (\<forall>x\<in>set ps. size_blk (heap s x) < 2 ^ 31) \<and>
     (\<forall>x\<in>blocks_dom s ps bs S. \<forall>y\<in>blocks_dom s ps bs S.
        x < y \<longrightarrow> blk_end (heap s) x \<le> unat y) \<and>
     (\<forall>x\<in>set ps \<union> bs. \<exists>e\<in>S. x \<le> e \<and> unat e - unat x < 2 ^ 31)"

definition alloc_inv :: "mem_state \<Rightarrow> addr set \<Rightarrow> bool" where
  "alloc_inv s bs \<longleftrightarrow>
     (\<forall>a\<in>bs. next_blk (heap s a) = 0 \<and> size_blk (heap s a) AND mem_alloc_bit s \<noteq> 0 \<and>
              a + MEM_BLOCK_META_SIZE \<noteq> 0)"

subsection \<open>Regions mem\_init is called on\<close>





subsection \<open>Sequences of public calls\<close>






text \<open>
  The header of a payload pointer. An allocation is exact when the block handed out has
  just the size asked for, aligned, plus the header; a run is exact when all its
  allocations are.
\<close>

definition block_of :: "addr \<Rightarrow> addr" where
  "block_of p = p - MEM_BLOCK_META_SIZE"





definition mem_inv :: "mem_state \<Rightarrow> addr list \<Rightarrow> addr list \<Rightarrow> addr set \<Rightarrow> bool" where
  "mem_inv s A ps S \<longleftrightarrow> 0 \<notin> set A \<and>
     layout_inv s ps (block_of ` set A) S \<and> alloc_inv s (block_of ` set A)"

definition gap :: "mem_state \<Rightarrow> addr list \<Rightarrow> 32 word" where
  "gap s ps = mem_available_bytes s - size_sum (heap s) ps"



section \<open>Constants and bit masks\<close>


lemma and3_mod: "(x :: 32 word) AND 3 = x mod 4"
  using take_bit_eq_mask[of 2 x] take_bit_eq_mod[of 2 x] by (simp add: mask_eq_exp_minus_1)

lemma and_not3: "(x :: 32 word) AND - 4 = x - x mod 4"
proof -
  have "NOT x AND (x AND 3) = 0"
    by (simp add: bit_eq_iff bit_simps)
  then have "x - (x AND 3) = x AND NOT (x AND 3)"
    by (rule disjunctive_diff_eq_and_not)
  also have "\<dots> = x AND NOT 3"
    by (auto simp: bit_eq_iff bit_simps)
  finally have "x AND NOT 3 = x - x mod 4" by (simp add: and3_mod)
  then show ?thesis by simp
qed

section \<open>mem\_init: the return value\<close>

lemma region_fit_accepted:
  "region_fit r =
     (if region_accepted r
      then Some (align_up (start_addr r),
                 align_down (size_reg r - (align_up (start_addr r) - start_addr r)))
      else None)"
  by (simp add: region_fit_def region_accepted_def align_up_def align_down_def Let_def
      MEM_ALIGN_BITS_def MEM_ALIGN_NUM_def and3_mod and_not3)



lemma regions_ordered_monotonic:
  "regions_ordered a sz (r # rs) = (\<not> start_addr r < a + sz \<and> regions_monotonic (r # rs))"
  by (induction rs arbitrary: a sz r) auto

lemma regions_ordered_0: "regions_ordered 0 0 rs = regions_monotonic rs"
  by (cases rs) (simp_all add: regions_ordered_monotonic del: regions_ordered.simps(2))



section \<open>mem\_init: a call that accepts no region\<close>

lemma init_regions_none:
  "\<forall>r\<in>set rs. \<not> region_accepted r \<Longrightarrow> init_regions s rs = s"
  by (induction rs) (simp_all add: region_fit_accepted)

lemma add_region_alloc_bit:
  "add_region (s\<lparr>mem_alloc_bit := b\<rparr>) a sz = (add_region s a sz)\<lparr>mem_alloc_bit := b\<rparr>"
  by (simp add: add_region_def Let_def)

lemma init_regions_alloc_bit:
  "init_regions (s\<lparr>mem_alloc_bit := b\<rparr>) rs = (init_regions s rs)\<lparr>mem_alloc_bit := b\<rparr>"
  by (induction rs arbitrary: s) (simp_all add: add_region_alloc_bit split: option.splits)

lemma mem_init_alloc_bit:
  "fst (mem_init (s\<lparr>mem_alloc_bit := b\<rparr>) rs) = fst (mem_init s rs) \<and>
   (end_block s = 0 \<and> regions_monotonic rs \<longrightarrow>
      mem_init (s\<lparr>mem_alloc_bit := b\<rparr>) rs = mem_init s rs)"
  by (simp add: mem_init_def Let_def init_regions_alloc_bit regions_ordered_0)

text \<open>
  C10. When \<open>mem_init\<close> is called in the uninitialised state and accepts no region (the
  array is empty, every region is too small, or the ordering check fails), \<open>end_block\<close>
  stays null and no header is written, so the once-only guard is not consumed: a later call
  returns what it would have returned without the first one, and leaves the same state when
  its regions are ordered.
\<close>

theorem mem_init_none_accepted:
  assumes "end_block s = 0"
    and "\<not> regions_monotonic regions \<or> (\<forall>r\<in>set regions. \<not> region_accepted r)"
  shows "end_block (snd (mem_init s regions)) = 0 \<and>
         heap (snd (mem_init s regions)) = heap s \<and>
         fst (mem_init (snd (mem_init s regions)) regions2) = fst (mem_init s regions2) \<and>
         (regions_monotonic regions2 \<longrightarrow>
            mem_init (snd (mem_init s regions)) regions2 = mem_init s regions2)"
proof (cases "regions_monotonic regions")
  case False
  then show ?thesis using assms(1) by (simp add: mem_init_def regions_ordered_0)
next
  case True
  with assms(2) have "init_regions s regions = s"
    by (simp add: init_regions_none)
  then have "snd (mem_init s regions) = s\<lparr>mem_alloc_bit := push_bit 31 1\<rparr>"
    using assms(1) True by (simp add: mem_init_def regions_ordered_0 Let_def)
  then show ?thesis
    using assms(1) mem_init_alloc_bit[where s=s and b="push_bit 31 1" and rs=regions2] by simp
qed

theorem mem_init_none_accepted_witness:
  "end_block demo_boot = 0 \<and>
   \<not> region_accepted \<lparr>start_addr = 0x1000, size_reg = 8\<rparr> \<and>
   end_block (snd (mem_init demo_boot [\<lparr>start_addr = 0x1000, size_reg = 8\<rparr>])) = 0 \<and>
   fst (mem_init (snd (mem_init demo_boot [\<lparr>start_addr = 0x1000, size_reg = 8\<rparr>]))
          [\<lparr>start_addr = 0x1000, size_reg = 1024\<rparr>]) = 1"
proof -
  have a: "end_block demo_boot = 0" by code_simp
  have b: "\<not> region_accepted \<lparr>start_addr = 0x1000, size_reg = 8\<rparr>" by code_simp
  then have b': "\<forall>r\<in>set [\<lparr>start_addr = 0x1000, size_reg = 8\<rparr>]. \<not> region_accepted r" by simp
  have c: "fst (mem_init demo_boot [\<lparr>start_addr = 0x1000, size_reg = 1024\<rparr>]) = 1" by code_simp
  from mem_init_none_accepted[OF a disjI2[OF b'], of "[\<lparr>start_addr = 0x1000, size_reg = 1024\<rparr>]"]
  show ?thesis using a b c by simp
qed

section \<open>The byte counter on the specification's scenario\<close>

text \<open>
  C1, evaluated. One region of 1024 bytes: after \<open>mem_init\<close> the counter is 1016;
  \<open>mem_malloc(1000)\<close> returns the payload of the only block, and after \<open>mem_free\<close> of that
  pointer the counter is 1024, not 1016.
\<close>

theorem malloc_free_counter_drift:
  "mem_available_bytes demo_init = 1016 \<and>
   map_option (\<lambda>(p, s2). (p, map_option mem_available_bytes (mem_free s2 p)))
     (mem_malloc demo_init 1000) = Some (0x1008, Some 1024)"
  by code_simp

text \<open>
  C2, evaluated. On the same state \<open>mem_malloc(1000)\<close> needs 1008 bytes, does not split the
  block of 1016 (its size field becomes 1016 with the allocated bit, the free list keeps
  the end sentinel only), and a following \<open>mem_malloc(1)\<close> returns null; but the counter
  is left at 8, not 0.
\<close>

theorem malloc_1000_counter:
  "MEM_ALIGN 1000 + MEM_BLOCK_META_SIZE = 1008 \<and>
   map_option (\<lambda>(p, s2). (p, size_blk (heap s2 0x1000), free_blocks s2,
                           mem_available_bytes s2, map_option fst (mem_malloc s2 1)))
     (mem_malloc demo_init 1000)
   = Some (0x1008, 1016 OR push_bit 31 1, Some [0x13F8], 8, Some 0)"
  by code_simp

section \<open>The free list: traversal and insertion\<close>

lemma path_append:
  "path h p (xs @ ys) q = (\<exists>r. path h p xs r \<and> path h r ys q)"
  by (induction xs arbitrary: p) auto

lemma path_frame:
  "path h p xs q \<Longrightarrow> \<forall>x\<in>set xs. next_blk (h' x) = next_blk (h x) \<Longrightarrow> path h' p xs q"
  by (induction xs arbitrary: p) auto

lemma path_nonzero: "path h p xs q \<Longrightarrow> 0 \<notin> set xs"
  by (induction xs arbitrary: p) auto

lemma path_hd: "path h p xs q \<Longrightarrow> xs \<noteq> [] \<Longrightarrow> hd xs = p"
  by (cases xs) auto


lemma path_free_list: "path h p ps 0 \<Longrightarrow> free_list h p = Some ps"
proof (induction ps arbitrary: p)
  case Nil
  then show ?case by (simp add: free_list.simps)
next
  case (Cons x xs)
  then have "free_list h (next_blk (h x)) = Some xs" by simp
  with Cons.prems show ?case
    by (subst free_list.simps) simp
qed

lemma free_list_path: "free_list h p = Some ps \<Longrightarrow> path h p ps 0"
proof (induction rule: free_list.raw_induct[rotated 1, consumes 1])
  case (1 free_list' h p ps)
  then show ?case
    by (auto split: if_splits simp: bind_eq_Some_conv)
qed

lemma free_list_iff: "free_list h p = Some ps \<longleftrightarrow> path h p ps 0"
  using free_list_path path_free_list by blast

lemma find_prev_path:
  assumes "cur \<noteq> 0"
    and "path h (next_blk (h cur)) (pre @ suc) 0"
    and "\<forall>x\<in>set pre. x < nb"
    and "suc \<noteq> []" and "\<not> hd suc < nb"
  shows "find_prev h cur nb = Some (last (cur # pre))"
  using assms
proof (induction pre arbitrary: cur)
  case Nil
  then have "next_blk (h cur) = hd suc" by (simp add: path_hd)
  with Nil show ?case by (subst find_prev.simps) simp
next
  case (Cons x xs)
  from Cons.prems have nx: "next_blk (h cur) = x" "x \<noteq> 0" "x < nb"
    and p: "path h (next_blk (h x)) (xs @ suc) 0" by auto
  have "find_prev h x nb = Some (last (x # xs))"
    using Cons.IH[OF nx(2) p] Cons.prems by simp
  with nx Cons.prems(1) show ?case by (subst find_prev.simps) simp
qed

lemma insert_free_block_eq:
  assumes "find_prev (heap s) (start_block s) nb = Some c"
    and "c \<noteq> 0" "c \<noteq> nb" "next_blk (heap s c) \<noteq> nb" "next_blk (heap s c) \<noteq> c"
    and "next_blk (heap s c) \<noteq> 0"
  shows "insert_free_block s nb = Some (s\<lparr>heap := ins_heap (heap s) c nb (end_block s)\<rparr>)"
  using assms
  by (auto simp: insert_free_block_def ins_heap_def Let_def set_size_def set_next_def fun_upd_twist
      intro!: arg_cong[where f="\<lambda>h. s\<lparr>heap := h\<rparr>"])

lemma path_upd_notin:
  "path h p xs q \<Longrightarrow> a \<notin> set xs \<Longrightarrow> path (h(a := v)) p xs q"
  by (rule path_frame) auto

lemma path_snoc_upd:
  assumes "path h p (xs @ [c]) q" "c \<notin> set xs" "next_blk v = q'"
  shows "path (h(c := v)) p (xs @ [c]) q'"
proof -
  from assms(1) obtain r where r: "path h p xs r" "path h r [c] q"
    by (auto simp: path_append)
  from r(1) assms(2) have "path (h(c := v)) p xs r" by (rule path_upd_notin)
  moreover from r(2) assms(3) have "path (h(c := v)) r [c] q'" by simp
  ultimately show ?thesis by (auto simp: path_append)
qed

lemma ins_heap_path:
  assumes p: "path h p (xs @ c # suc) 0"
    and d: "distinct (xs @ c # suc)"
    and nb: "nb \<notin> set (xs @ c # suc)" "nb \<noteq> 0"
    and suc: "suc \<noteq> []"
  shows "path (ins_heap h c nb eb) p (ins_list h c nb eb xs suc) 0"
proof -
  obtain n rest where sucn: "suc = n # rest" using suc by (cases suc) auto
  from p have p1: "path h p (xs @ [c]) n" and p2: "path h n (n # rest) 0"
    and nn: "next_blk (h c) = n"
    using sucn by (auto simp: path_append)
  from p2 have p3: "path h (next_blk (h n)) rest 0" and n0: "n \<noteq> 0" by auto
  from d sucn have cx: "c \<notin> set xs" and cs: "c \<notin> set suc" and xn: "n \<notin> set xs" "n \<notin> set rest"
    and cn: "c \<noteq> n" by auto
  let ?L = "c + size_blk (h c) = nb"
  show ?thesis
  proof (cases ?L)
    case True
    show ?thesis
    proof (cases "c + (size_blk (h c) + size_blk (h nb)) = n \<and> n \<noteq> eb")
      case absorb: True
      let ?v = "\<lparr>next_blk = next_blk (h n),
                 size_blk = size_blk (h c) + size_blk (h nb) + size_blk (h n)\<rparr>"
      have a: "path (h(c := ?v)) p (xs @ [c]) (next_blk (h n))"
        using p1 cx by (rule path_snoc_upd) simp
      have b: "path (h(c := ?v)) (next_blk (h n)) rest 0"
        using p3 cs sucn by (intro path_upd_notin) auto
      from a b have "path (h(c := ?v)) p ((xs @ [c]) @ rest) 0"
        unfolding path_append by blast
      then show ?thesis using True absorb nn sucn
        by (auto simp: ins_heap_def ins_list_def Let_def)
    next
      case False
      have "path (h(c := (h c)\<lparr>size_blk := size_blk (h c) + size_blk (h nb)\<rparr>)) p (xs @ c # suc) 0"
        using p by (rule path_frame) auto
      then show ?thesis using True False nn
        by (auto simp: ins_heap_def ins_list_def Let_def)
    qed
  next
    case False
    show ?thesis
    proof (cases "nb + size_blk (h nb) = n \<and> n \<noteq> eb")
      case absorb: True
      let ?vn = "\<lparr>next_blk = next_blk (h n), size_blk = size_blk (h nb) + size_blk (h n)\<rparr>"
      let ?h' = "(h(nb := ?vn))(c := (h c)\<lparr>next_blk := nb\<rparr>)"
      have "path (h(nb := ?vn)) p (xs @ [c]) n"
        using p1 nb by (intro path_upd_notin) auto
      then have a: "path ?h' p (xs @ [c]) nb"
        using cx by (rule path_snoc_upd) simp
      have "path (h(nb := ?vn)) (next_blk (h n)) rest 0"
        using p3 nb sucn by (intro path_upd_notin) auto
      then have "path ?h' (next_blk (h n)) rest 0"
        by (rule path_upd_notin) (use cs sucn in auto)
      then have b: "path ?h' nb (nb # rest) 0"
        using nb by auto
      from a b have "path ?h' p ((xs @ [c]) @ nb # rest) 0"
        unfolding path_append by blast
      then show ?thesis using False absorb nn sucn
        by (auto simp: ins_heap_def ins_list_def Let_def)
    next
      case noabs: False
      let ?h' = "(h(nb := (h nb)\<lparr>next_blk := n\<rparr>))(c := (h c)\<lparr>next_blk := nb\<rparr>)"
      have "path (h(nb := (h nb)\<lparr>next_blk := n\<rparr>)) p (xs @ [c]) n"
        using p1 nb by (intro path_upd_notin) auto
      then have a: "path ?h' p (xs @ [c]) nb"
        using cx by (rule path_snoc_upd) simp
      have "path (h(nb := (h nb)\<lparr>next_blk := n\<rparr>)) n suc 0"
        using p2 nb sucn by (intro path_upd_notin) auto
      then have "path ?h' n suc 0"
        by (rule path_upd_notin) (use cs in auto)
      then have b: "path ?h' nb (nb # suc) 0"
        using nb by auto
      from a b have "path ?h' p ((xs @ [c]) @ nb # suc) 0"
        unfolding path_append by blast
      then show ?thesis using False noabs nn
        by (auto simp: ins_heap_def ins_list_def Let_def)
    qed
  qed
qed

lemma sorted_free_list_path:
  "sorted_free_list s ps \<Longrightarrow> path (heap s) (start_block s) (start_block s # ps) 0"
  by (simp add: sorted_free_list_def free_blocks_def free_list_iff)

lemma sorted_free_list_distinct:
  "sorted_free_list s ps \<Longrightarrow> distinct (start_block s # ps)"
  by (auto simp: sorted_free_list_def strict_sorted_iff)

lemma insert_free_block_shape:
  assumes wf: "sorted_free_list s ps"
    and nb: "nb \<noteq> 0" "nb \<noteq> start_block s" "nb \<notin> set ps" "nb < end_block s"
  defines "pre \<equiv> takeWhile (\<lambda>x. x < nb) ps"
    and "suc \<equiv> dropWhile (\<lambda>x. x < nb) ps"
  defines "c \<equiv> last (start_block s # pre)"
  shows "suc \<noteq> []" and "ps = pre @ suc" and "\<forall>x\<in>set pre. x < nb" and "\<forall>x\<in>set suc. nb < x"
    and "c \<noteq> 0" and "c \<noteq> nb" and "c \<notin> set suc" and "next_blk (heap s c) = hd suc"
    and "find_prev (heap s) (start_block s) nb = Some c"
    and "insert_free_block s nb = Some (s\<lparr>heap := ins_heap (heap s) c nb (end_block s)\<rparr>)"
    and "path (ins_heap (heap s) c nb (end_block s)) (start_block s)
           (ins_list (heap s) c nb (end_block s) (butlast (start_block s # pre)) suc) 0"
proof -
  let ?sb = "start_block s" and ?h = "heap s"
  from wf have sorted: "sorted_wrt (<) ps" and ne: "ps \<noteq> []" and last: "last ps = end_block s"
    and sb: "?sb \<noteq> 0" "?sb \<notin> set ps"
    by (auto simp: sorted_free_list_def)
  have p: "path ?h ?sb (?sb # ps) 0" using wf by (rule sorted_free_list_path)
  have d: "distinct (?sb # ps)" using wf by (rule sorted_free_list_distinct)
  show ps: "ps = pre @ suc" by (simp add: pre_def suc_def)
  show pre: "\<forall>x\<in>set pre. x < nb" by (auto simp: pre_def dest: set_takeWhileD)
  show suc: "suc \<noteq> []"
  proof
    assume "suc = []"
    then have "\<forall>x\<in>set ps. x < nb" by (simp add: suc_def)
    with ne last have "end_block s < nb" using last_in_set by metis
    with nb(4) show False by simp
  qed
  then have hd: "\<not> hd suc < nb" using hd_dropWhile[of "\<lambda>x. x < nb" ps] by (simp add: suc_def)
  have hd_in: "hd suc \<in> set ps" using suc ps by (metis Un_iff hd_in_set set_append)
  with nb(3) hd have hdnb: "nb < hd suc" by (metis not_less_iff_gr_or_eq)
  have "sorted_wrt (<) suc" using sorted ps by (metis sorted_wrt_append)
  then have "\<forall>x\<in>set suc. hd suc \<le> x" using suc
    by (cases suc) (auto simp: less_imp_le)
  with hdnb show sucgt: "\<forall>x\<in>set suc. nb < x" by auto
  have nz: "0 \<notin> set (?sb # ps)" using p by (rule path_nonzero)
  have cin: "c \<in> set (?sb # pre)" unfolding c_def by (rule last_in_set) simp
  then have cin': "c \<in> set (?sb # ps)" using ps by auto
  with nz show c0: "c \<noteq> 0" by metis
  from cin' nb show cnb: "c \<noteq> nb" by auto
  from cin d ps show cs: "c \<notin> set suc" by auto
  have p': "path ?h (next_blk (?h ?sb)) (pre @ suc) 0" using p ps by simp
  show fp: "find_prev ?h ?sb nb = Some c"
    unfolding c_def using sb(1) p' pre suc hd by (rule find_prev_path)
  have full: "?sb # ps = butlast (?sb # pre) @ c # suc"
    unfolding c_def using ps by (metis append_Cons append_butlast_last_id list.distinct(1) append.assoc append_Nil)
  from p full have p2: "path ?h ?sb (butlast (?sb # pre) @ c # suc) 0" by simp
  then obtain r where "path ?h r (c # suc) 0" by (auto simp: path_append)
  then show nx: "next_blk (?h c) = hd suc" using suc by (cases suc) auto
  have nx0: "next_blk (?h c) \<noteq> 0" using nx hd_in nz by auto
  have nxc: "next_blk (?h c) \<noteq> c" using nx cs suc by auto
  have nxnb: "next_blk (?h c) \<noteq> nb" using nx hdnb by auto
  show "insert_free_block s nb = Some (s\<lparr>heap := ins_heap ?h c nb (end_block s)\<rparr>)"
    using fp c0 cnb nxnb nxc nx0 by (rule insert_free_block_eq)
  from d full have d2: "distinct (butlast (?sb # pre) @ c # suc)" by simp
  from nb full have nb2: "nb \<notin> set (butlast (?sb # pre) @ c # suc)"
    by (metis set_ConsD)
  show "path (ins_heap ?h c nb (end_block s)) ?sb
           (ins_list ?h c nb (end_block s) (butlast (?sb # pre)) suc) 0"
    using p2 d2 nb2 nb(1) suc by (rule ins_heap_path)
qed

lemma ins_list_blocks_gen:
  assumes "xs @ [c] = sb # pre"
  shows "ins_list h c nb eb xs suc = sb # ins_blocks h c nb eb pre suc"
proof -
  from assms have "\<And>ys. xs @ c # ys = sb # pre @ ys"
    by (metis append_Cons append_Nil append.assoc)
  then show ?thesis by (simp add: ins_list_def ins_blocks_def Let_def)
qed

lemma ins_list_blocks:
  "ins_list h (last (sb # pre)) nb eb (butlast (sb # pre)) suc =
     sb # ins_blocks h (last (sb # pre)) nb eb pre suc"
  by (rule ins_list_blocks_gen, rule append_butlast_last_id) simp

lemma sorted_ins_shapes:
  assumes "sorted_wrt (<) (pre @ suc)" "\<forall>x\<in>set pre. x < nb" "\<forall>x\<in>set suc. nb < (x::addr)"
  shows "sorted_wrt (<) (pre @ nb # suc)" "sorted_wrt (<) (pre @ nb # tl suc)"
    "sorted_wrt (<) (pre @ tl suc)"
  using assms by (cases suc; auto simp: sorted_wrt_append)+

lemma insert_free_block_sorted:
  assumes wf: "sorted_free_list s ps"
    and nb: "nb \<noteq> 0" "nb \<noteq> start_block s" "nb \<notin> set ps" "nb < end_block s"
  defines "pre \<equiv> takeWhile (\<lambda>x. x < nb) ps"
    and "suc \<equiv> dropWhile (\<lambda>x. x < nb) ps"
  defines "c \<equiv> last (start_block s # pre)"
  shows "sorted_free_list (s\<lparr>heap := ins_heap (heap s) c nb (end_block s)\<rparr>)
           (ins_blocks (heap s) c nb (end_block s) pre suc)"
proof -
  let ?sb = "start_block s" and ?h = "heap s" and ?eb = "end_block s"
  let ?h' = "ins_heap ?h c nb ?eb" and ?ps' = "ins_blocks ?h c nb ?eb pre suc"
  note sh = insert_free_block_shape[OF wf nb, folded pre_def suc_def, folded c_def]
  from wf have sorted: "sorted_wrt (<) ps" and ne: "ps \<noteq> []" and last: "last ps = ?eb"
    and sb: "?sb \<noteq> 0" "?sb \<notin> set ps"
    by (auto simp: sorted_free_list_def)
  have "path ?h' ?sb (?sb # ?ps') 0"
    using sh(11) unfolding c_def ins_list_blocks .
  then have fb: "free_blocks (s\<lparr>heap := ?h'\<rparr>) = Some ?ps'"
    by (simp add: free_blocks_def free_list_iff)
  have srt: "sorted_wrt (<) (pre @ suc)" using sorted sh(2) by simp
  note shapes = sorted_ins_shapes[OF srt sh(3) sh(4)]
  have sorted': "sorted_wrt (<) ?ps'"
    using shapes srt by (simp add: ins_blocks_def Let_def)
  have lsuc: "last suc = ?eb" using last sh(1) sh(2) by simp
  have ltl: "hd suc \<noteq> ?eb \<Longrightarrow> tl suc \<noteq> [] \<and> last (tl suc) = ?eb"
    using lsuc sh(1) by (cases suc) (auto split: if_splits)
  have last': "?ps' \<noteq> [] \<and> last ?ps' = ?eb"
    using lsuc sh(1) ltl sh(8) by (auto simp: ins_blocks_def Let_def)
  have "set ?ps' \<subseteq> insert nb (set ps)"
    using sh(2) sh(1) by (cases suc) (auto simp: ins_blocks_def Let_def)
  then have "?sb \<notin> set ?ps'" using sb(2) nb(2) by auto
  then show ?thesis using sb(1) fb sorted' last'
    by (simp add: sorted_free_list_def)
qed

text \<open>
  C6. Let the free list be in strictly increasing address order and end at \<open>end_block\<close>,
  and let \<open>nb\<close> be a block below \<open>end_block\<close> that is not on the list.
  Then \<open>insert_free_block\<close> returns, and the list is again in strictly increasing order
  and ends at \<open>end_block\<close>. With \<open>cur\<close> the block at which the search loop stops,
  \<open>blk\<close> the block that holds \<open>nb\<close> afterwards (\<open>cur\<close> when \<open>cur + cur.size = nb\<close>,
  then \<open>cur\<close> has absorbed \<open>nb\<close>, which is not put on the list; \<open>nb\<close> itself otherwise) and
  \<open>sz\<close> its size: when \<open>blk + sz\<close> is \<open>cur.next\<close> and that is \<open>end_block\<close>, the sentinel
  stays on the list and \<open>blk.next\<close> is \<open>end_block\<close>; when it is another block, that block
  is absorbed (its size added, its \<open>next\<close> taken over, the block gone from the list).
\<close>

theorem insert_free_block_keeps_order:
  assumes wf: "sorted_free_list s ps"
    and nb: "nb \<noteq> 0" "nb \<noteq> start_block s" "nb \<notin> set ps" "nb < end_block s"
  shows "\<exists>cur s' ps'.
     find_prev (heap s) (start_block s) nb = Some cur \<and>
     insert_free_block s nb = Some s' \<and> sorted_free_list s' ps' \<and>
     start_block s' = start_block s \<and> end_block s' = end_block s \<and>
     (let h = heap s; n = next_blk (h cur);
          left = (cur + size_blk (h cur) = nb);
          blk = (if left then cur else nb);
          sz = (if left then size_blk (h cur) + size_blk (h nb) else size_blk (h nb))
      in (blk + sz = n \<and> n = end_block s \<longrightarrow>
            next_blk (heap s' blk) = end_block s \<and> size_blk (heap s' blk) = sz \<and>
            end_block s \<in> set ps') \<and>
         (blk + sz = n \<and> n \<noteq> end_block s \<longrightarrow>
            next_blk (heap s' blk) = next_blk (h n) \<and>
            size_blk (heap s' blk) = sz + size_blk (h n) \<and> n \<notin> set ps') \<and>
         (blk + sz \<noteq> n \<longrightarrow> next_blk (heap s' blk) = n \<and> size_blk (heap s' blk) = sz) \<and>
         (left \<longrightarrow> nb \<notin> set ps') \<and>
         (\<not> left \<longrightarrow> nb \<in> set ps' \<and> next_blk (heap s' cur) = nb))"
proof -
  define pre where "pre = takeWhile (\<lambda>x. x < nb) ps"
  define suc where "suc = dropWhile (\<lambda>x. x < nb) ps"
  define c where "c = last (start_block s # pre)"
  let ?h = "heap s" and ?eb = "end_block s"
  let ?h' = "ins_heap ?h c nb ?eb" and ?ps' = "ins_blocks ?h c nb ?eb pre suc"
  note sh = insert_free_block_shape[OF wf nb, folded pre_def suc_def, folded c_def]
  have wf': "sorted_free_list (s\<lparr>heap := ?h'\<rparr>) ?ps'"
    using insert_free_block_sorted[OF wf nb] by (simp add: pre_def suc_def c_def)
  obtain n rest where sucn: "suc = n # rest" using sh(1) by (cases suc) auto
  have nx: "next_blk (?h c) = n" using sh(8) sucn by simp
  have d: "distinct (pre @ n # rest)"
    using sorted_free_list_distinct[OF wf] sh(2) sucn by simp
  have nbn: "nb \<noteq> n" "nb \<notin> set pre" "nb \<notin> set rest" using nb(3) sh(2) sucn by auto
  have cn: "c \<noteq> n" using sh(7) sucn by simp
  have eb_in: "?eb \<in> set ?ps'"
    using wf' by (metis (no_types, lifting) last_in_set sorted_free_list_def select_convs(4) surjective update_convs(2))
  have facts:
    "let h = heap s; n = next_blk (h c);
          left = (c + size_blk (h c) = nb);
          blk = (if left then c else nb);
          sz = (if left then size_blk (h c) + size_blk (h nb) else size_blk (h nb))
      in (blk + sz = n \<and> n = end_block s \<longrightarrow>
            next_blk (?h' blk) = end_block s \<and> size_blk (?h' blk) = sz \<and>
            end_block s \<in> set ?ps') \<and>
         (blk + sz = n \<and> n \<noteq> end_block s \<longrightarrow>
            next_blk (?h' blk) = next_blk (h n) \<and>
            size_blk (?h' blk) = sz + size_blk (h n) \<and> n \<notin> set ?ps') \<and>
         (blk + sz \<noteq> n \<longrightarrow> next_blk (?h' blk) = n \<and> size_blk (?h' blk) = sz) \<and>
         (left \<longrightarrow> nb \<notin> set ?ps') \<and>
         (\<not> left \<longrightarrow> nb \<in> set ?ps' \<and> next_blk (?h' c) = nb)"
    unfolding Let_def nx
    using d nbn cn sh(6) eb_in sucn nx
    by (auto simp: ins_heap_def ins_blocks_def Let_def)
  show ?thesis
    apply (rule exI[of _ c], rule exI[of _ "s\<lparr>heap := ?h'\<rparr>"], rule exI[of _ ?ps'])
    using sh(9) sh(10) wf' facts by simp
qed

theorem insert_free_block_keeps_order_witness:
  "sorted_free_list demo_freed [0x106C, 0x13F8] \<and>
   (0x1000 :: addr) \<noteq> 0 \<and> 0x1000 \<noteq> start_block demo_freed \<and>
   (0x1000 :: addr) \<notin> set [0x106C, 0x13F8] \<and> 0x1000 < end_block demo_freed \<and>
   map_option (\<lambda>s'. (free_blocks s', heap s' 0x1000)) (insert_free_block demo_freed 0x1000)
     = Some (Some [0x1000, 0x13F8], \<lparr>next_blk = 0x13F8, size_blk = 1016\<rparr>) \<and>
   (\<exists>s' ps'. insert_free_block demo_freed 0x1000 = Some s' \<and> sorted_free_list s' ps')"
proof -
  have h: "sorted_free_list demo_freed [0x106C, 0x13F8]"
    "(0x1000 :: addr) \<noteq> 0" "0x1000 \<noteq> start_block demo_freed"
    "(0x1000 :: addr) \<notin> set [0x106C, 0x13F8]" "0x1000 < end_block demo_freed"
    by code_simp+
  have e: "map_option (\<lambda>s'. (free_blocks s', heap s' 0x1000)) (insert_free_block demo_freed 0x1000)
     = Some (Some [0x1000, 0x13F8], \<lparr>next_blk = 0x13F8, size_blk = 1016\<rparr>)"
    by code_simp
  from insert_free_block_keeps_order[OF h]
  have "\<exists>s' ps'. insert_free_block demo_freed 0x1000 = Some s' \<and> sorted_free_list s' ps'"
    by blast
  with h e show ?thesis by blast
qed

section \<open>The allocated bit\<close>







section \<open>Insertion: sizes and extents\<close>


















section \<open>Insertion keeps the layout\<close>


section \<open>mem\_free keeps the layout\<close>







section \<open>mem\_malloc keeps the layout\<close>











section \<open>mem\_init establishes the layout\<close>




lemma add_region_fields:
  "start_block (add_region s a sz) = start_block s"
  "end_block (add_region s a sz) = a + sz - MEM_BLOCK_META_SIZE"
  "bytes (add_region s a sz) = bytes s"
  "mem_alloc_bit (add_region s a sz) = mem_alloc_bit s"
  by (simp_all add: add_region_def Let_def)



lemma init_regions_start_block: "start_block (init_regions s rs) = start_block s"
  by (induction rs arbitrary: s) (auto simp: add_region_fields split: option.splits)




section \<open>Runs of public calls\<close>

lemma layout_inv_bytes [simp]: "layout_inv (s\<lparr>bytes := b\<rparr>) ps bs S = layout_inv s ps bs S"
  by (simp add: layout_inv_def sorted_free_list_def free_blocks_def blocks_dom_def)

lemma alloc_inv_bytes [simp]: "alloc_inv (s\<lparr>bytes := b\<rparr>) bs = alloc_inv s bs"
  by (simp add: alloc_inv_def)






lemma mem_inv_bytes [simp]: "mem_inv (s\<lparr>bytes := b\<rparr>) A ps S = mem_inv s A ps S"
  by (simp add: mem_inv_def)



lemma gap_bytes [simp]: "gap (s\<lparr>bytes := b\<rparr>) ps = gap s ps"
  by (simp add: gap_def)








section \<open>The states of the scenario\<close>








section \<open>The byte counter and the free list\<close>




section \<open>mem\_malloc: when it returns null\<close>



section \<open>mem\_malloc: the split\<close>



section \<open>mem\_realloc\<close>



section \<open>mem\_free: validation\<close>



end
